theory Spec2Isabelle
  imports Main "HOL-Library.Word" "HOL-Library.Signed_Division" "HOL-Library.Multiset"
begin

section \<open>Dense iteration spaces, traversal orders and static partitioning\<close>

text \<open>
  The development follows \<^verbatim>\<open>space.cpp\<close>, which holds two versions of the program: an
  earlier one that is fixed to two dimensions (\<^verbatim>\<open>space2d\<close>, \<^verbatim>\<open>_rm_order\<close>,
  \<^verbatim>\<open>_static_partition\<close>) and the generic one in namespace \<^verbatim>\<open>impl\<close>
  (\<^verbatim>\<open>dense_space<DIM>\<close>, \<^verbatim>\<open>rm_next\<close>, \<^verbatim>\<open>cm_next\<close>, \<^verbatim>\<open>static_partition\<close>).

  The C++ \<^verbatim>\<open>int\<close> is the 32-bit word \<open>c_int\<close>, read as two's complement by \<open>sint\<close>
  and compared by the signed orders \<open>\<le>s\<close> and \<open><s\<close>. Signed overflow is undefined in
  C++; the model gives \<^verbatim>\<open>++\<close>, \<^verbatim>\<open>-\<close> and \<^verbatim>\<open>*\<close> the wrap-around of the machine
  instructions, which is what the compiled program does. Integer division \<^verbatim>\<open>/\<close>
  truncates towards zero; it traps when the divisor is zero and when \<^verbatim>\<open>INT_MIN\<close> is
  divided by \<open>-1\<close>. A \<^verbatim>\<open>std::array<int, DIM>\<close> is a list of length \<^verbatim>\<open>DIM\<close>; the two
  arrays of a space have the same length by their C++ type, which the theorems below
  assume. The traps, an array index outside the array and the failing \<^verbatim>\<open>assert\<close> are
  values of type \<open>error\<close>.
\<close>

type_synonym c_int = "32 word"

definition INT_MAX :: c_int where
  "INT_MAX = 2147483647"

definition INT_MIN :: c_int where
  "INT_MIN = - 2147483648"

text \<open>The quotient of \<^verbatim>\<open>a / b\<close> on \<^verbatim>\<open>int\<close>, where the division does not trap.\<close>

definition int_div :: "c_int \<Rightarrow> c_int \<Rightarrow> c_int" where
  "int_div a b = word_of_int (sint a sdiv sint b)"

datatype error = Assertion_Failed | Division_By_Zero | Division_Overflow | Index_Out_Of_Range

subsection \<open>The generic version: \<^verbatim>\<open>impl::dense_space\<close> and \<^verbatim>\<open>iteration\<close>\<close>

record dense_space =
  start :: "c_int list"
  limit :: "c_int list"

text \<open>\<^verbatim>\<open>static constexpr int dim = DIM\<close>: the size of both arrays.\<close>

definition dim :: "dense_space \<Rightarrow> nat" where
  "dim s = length (start s)"

text \<open>\<^verbatim>\<open>dense_space::operator!=\<close>; \<^verbatim>\<open>std::array\<close> compares element by element.\<close>

definition dense_space_ne :: "dense_space \<Rightarrow> dense_space \<Rightarrow> bool" where
  "dense_space_ne lhs rhs = (start rhs \<noteq> start lhs \<or> limit rhs \<noteq> limit lhs)"

text \<open>
  An \<^verbatim>\<open>iteration<DIM, spaceT>\<close>. The member \<^verbatim>\<open>order\<close> is a \<^verbatim>\<open>std::function\<close>, which is
  empty until \<^verbatim>\<open>begin()\<close> or \<^verbatim>\<open>end()\<close> of an order assigns it.
\<close>

record iteration =
  index :: "c_int list"
  order :: "(c_int list \<Rightarrow> dense_space \<Rightarrow> c_int list) option"
  its_space :: dense_space

text \<open>The constructor \<^verbatim>\<open>iteration(const spaceT &s) : index(s.start), _space(s)\<close>.\<close>

definition iteration_of :: "dense_space \<Rightarrow> iteration" where
  "iteration_of s = \<lparr>index = start s, order = None, its_space = s\<rparr>"

text \<open>\<^verbatim>\<open>iteration::operator!=\<close>.\<close>

definition iteration_ne :: "iteration \<Rightarrow> iteration \<Rightarrow> bool" where
  "iteration_ne lhs rhs = (index rhs \<noteq> index lhs \<or> dense_space_ne (its_space rhs) (its_space lhs))"

text \<open>\<^verbatim>\<open>iteration::operator++\<close>: \<^verbatim>\<open>assert(order); order(index, _space)\<close>.\<close>

definition incr :: "iteration \<Rightarrow> error + iteration" where
  "incr it = (case order it of
                None \<Rightarrow> Inl Assertion_Failed
              | Some f \<Rightarrow> Inr (it\<lparr>index := f (index it) (its_space it)\<rparr>))"

text \<open>
  \<^verbatim>\<open>impl::array_to_tuple<N, T>::get\<close>: the tuple of the last \<open>N\<close> elements of the array,
  a list here. The template is instantiated with \<open>N \<ge> 1\<close> only.
\<close>

fun array_to_tuple :: "nat \<Rightarrow> c_int list \<Rightarrow> c_int list" where
  "array_to_tuple 0 arr = []"
| "array_to_tuple (Suc 0) arr = [arr ! (length arr - 1)]"
| "array_to_tuple (Suc (Suc n)) arr =
     arr ! (length arr - Suc (Suc n)) # array_to_tuple (Suc n) arr"

text \<open>\<^verbatim>\<open>iteration::operator*\<close>.\<close>

definition deref :: "iteration \<Rightarrow> c_int list" where
  "deref it = array_to_tuple (length (index it)) (index it)"

subsection \<open>The successor functions\<close>

text \<open>
  \<^verbatim>\<open>impl::cm_next<N, T, spaceT>::get\<close>, with the specialisation for \<open>N = 1\<close>. The
  recursion of the templates on \<open>N\<close> is the recursion of the function; \<open>N = 0\<close> is never
  instantiated (\<^verbatim>\<open>iteration<0, spaceT>\<close> is declared and left undefined) and leaves the
  array as it is.
\<close>

fun cm_next :: "nat \<Rightarrow> c_int list \<Rightarrow> dense_space \<Rightarrow> c_int list" where
  "cm_next 0 arr space = arr"
| "cm_next (Suc 0) arr space =
     (let index = dim space - 1;
          arr = arr[index := arr ! index + 1]
      in if limit space ! index \<le>s arr ! index then limit space else arr)"
| "cm_next (Suc (Suc n)) arr space =
     (let index = dim space - Suc (Suc n);
          arr = arr[index := arr ! index + 1]
      in if limit space ! index \<le>s arr ! index
         then cm_next (Suc n) (arr[index := start space ! index]) space
         else arr)"

text \<open>\<^verbatim>\<open>impl::rm_next<N, T, spaceT>::get\<close>, with the specialisation for \<open>N = 1\<close>.\<close>

fun rm_next :: "nat \<Rightarrow> c_int list \<Rightarrow> dense_space \<Rightarrow> c_int list" where
  "rm_next 0 arr space = arr"
| "rm_next (Suc 0) arr space =
     (let index = 1 - 1;
          arr = arr[index := arr ! index + 1]
      in if limit space ! index \<le>s arr ! index then limit space else arr)"
| "rm_next (Suc (Suc n)) arr space =
     (let index = Suc (Suc n) - 1;
          arr = arr[index := arr ! index + 1]
      in if limit space ! index \<le>s arr ! index
         then rm_next (Suc n) (arr[index := start space ! index]) space
         else arr)"

text \<open>\<^verbatim>\<open>impl::cm_order::begin\<close>, \<^verbatim>\<open>end\<close> and \<^verbatim>\<open>impl::rm_order::begin\<close>, \<^verbatim>\<open>end\<close>.\<close>

definition cm_order_begin :: "dense_space \<Rightarrow> iteration" where
  "cm_order_begin s = (iteration_of s)\<lparr>order := Some (cm_next (dim s))\<rparr>"

definition cm_order_end :: "dense_space \<Rightarrow> iteration" where
  "cm_order_end s = (iteration_of s)\<lparr>index := limit s, order := Some (cm_next (dim s))\<rparr>"

definition rm_order_begin :: "dense_space \<Rightarrow> iteration" where
  "rm_order_begin s = (iteration_of s)\<lparr>order := Some (rm_next (dim s))\<rparr>"

definition rm_order_end :: "dense_space \<Rightarrow> iteration" where
  "rm_order_end s = (iteration_of s)\<lparr>index := limit s, order := Some (rm_next (dim s))\<rparr>"

subsection \<open>The driving loop\<close>

text \<open>
  The range-based \<^verbatim>\<open>for\<close> of \<^verbatim>\<open>main\<close>:
  \<^verbatim>\<open>for (it = r.begin(), e = r.end(); it != e; ++it) { body(*it); }\<close>.
  The model collects the tuples handed to the body. The loop need not end, so the
  result is an option: \<open>None\<close> is a loop that runs forever.
\<close>

partial_function (option) driving_loop ::
  "iteration \<Rightarrow> iteration \<Rightarrow> c_int list list \<Rightarrow> (error + c_int list list) option" where
  "driving_loop it e visited =
     (if iteration_ne it e
      then (case incr it of
              Inl err \<Rightarrow> Some (Inl err)
            | Inr it' \<Rightarrow> driving_loop it' e (visited @ [deref it]))
      else Some (Inr visited))"

declare driving_loop.simps [code]

definition rm_iterate :: "dense_space \<Rightarrow> (error + c_int list list) option" where
  "rm_iterate s = driving_loop (rm_order_begin s) (rm_order_end s) []"

definition cm_iterate :: "dense_space \<Rightarrow> (error + c_int list list) option" where
  "cm_iterate s = driving_loop (cm_order_begin s) (cm_order_end s) []"

subsection \<open>Static partitioning\<close>

text \<open>
  \<^verbatim>\<open>impl::static_partition::partition\<close>. The worker id and the worker count are
  \<^verbatim>\<open>omp_get_thread_num()\<close> and \<^verbatim>\<open>omp_get_num_threads()\<close>; they are arguments here.
  The function is \<^verbatim>\<open>noexcept\<close> and checks none of its inputs.
\<close>

definition partition :: "c_int \<Rightarrow> c_int \<Rightarrow> c_int \<Rightarrow> dense_space \<Rightarrow> error + dense_space" where
  "partition thread_num num_threads d s =
     (if d <s 0 \<or> int (dim s) \<le> sint d then Inl Index_Out_Of_Range
      else
        let size = limit s ! nat (sint d) - start s ! nat (sint d)
        in if num_threads = 0 then Inl Division_By_Zero
           else if size = INT_MIN \<and> num_threads = - 1 then Inl Division_Overflow
           else
             let s = s\<lparr>start := (start s)[nat (sint d) := (int_div size num_threads) * thread_num]\<rparr>;
                 s = (if thread_num \<noteq> num_threads - 1
                      then s\<lparr>limit := (limit s)[nat (sint d) :=
                                       int_div size num_threads * (thread_num + 1)]\<rparr>
                      else s)
             in Inr s)"

subsection \<open>The earlier two-dimensional version\<close>

record space2d =
  start_i :: c_int
  end_i :: c_int
  start_j :: c_int
  end_j :: c_int

text \<open>\<^verbatim>\<open>_rm_order::next\<close>; the references \<^verbatim>\<open>i\<close> and \<^verbatim>\<open>j\<close> are returned as a pair.\<close>

definition next_2d :: "c_int \<Rightarrow> c_int \<Rightarrow> space2d \<Rightarrow> c_int \<times> c_int" where
  "next_2d i j space =
     (let i = i + 1
      in if end_i space \<le>s i
         then (let i = start_i space; j = j + 1
               in if end_j space \<le>s j then (end_i space, end_j space) else (i, j))
         else (i, j))"

text \<open>
  The loop over \<^verbatim>\<open>_rm_order\<close>: \<^verbatim>\<open>begin()\<close> is at \<^verbatim>\<open>(start_i, start_j)\<close>, \<^verbatim>\<open>end()\<close> at
  \<^verbatim>\<open>(end_i, end_j)\<close>, both cursors hold the same space and the same \<^verbatim>\<open>next\<close>, so
  \<^verbatim>\<open>operator!=\<close> compares the two positions.
\<close>

partial_function (option) driving_loop_2d ::
  "c_int \<times> c_int \<Rightarrow> space2d \<Rightarrow> (c_int \<times> c_int) list \<Rightarrow> (c_int \<times> c_int) list option" where
  "driving_loop_2d p space visited =
     (if fst p \<noteq> end_i space \<or> snd p \<noteq> end_j space
      then driving_loop_2d (next_2d (fst p) (snd p) space) space (visited @ [p])
      else Some visited)"

declare driving_loop_2d.simps [code]

definition rm_iterate_2d :: "space2d \<Rightarrow> (c_int \<times> c_int) list option" where
  "rm_iterate_2d space = driving_loop_2d (start_i space, start_j space) space []"

text \<open>The constructor of \<^verbatim>\<open>_static_partition\<close>, acting on the space of the order.\<close>

definition static_partition_2d :: "c_int \<Rightarrow> c_int \<Rightarrow> space2d \<Rightarrow> error + space2d" where
  "static_partition_2d thread_num num_threads s =
     (let size = end_i s - start_i s
      in if num_threads = 0 then Inl Division_By_Zero
         else if size = INT_MIN \<and> num_threads = - 1 then Inl Division_Overflow
         else
           let s = s\<lparr>start_i := (int_div size num_threads) * thread_num\<rparr>;
               s = (if thread_num \<noteq> num_threads - 1
                    then s\<lparr>end_i := int_div size num_threads * (thread_num + 1)\<rparr>
                    else s)
           in Inr s)"

subsection \<open>Notions used to state the properties\<close>

text \<open>
  The slice of dimension \<open>d\<close> that \<open>partition\<close> gives to a worker, as the set of the
  indices in the half-open interval from \<open>start[d]\<close> to \<open>limit[d]\<close> of the result.
\<close>

definition worker_slice :: "c_int \<Rightarrow> c_int \<Rightarrow> c_int \<Rightarrow> dense_space \<Rightarrow> int set" where
  "worker_slice thread_num num_threads d s =
     (case partition thread_num num_threads d s of
        Inl err \<Rightarrow> {}
      | Inr p \<Rightarrow> {sint (start p ! nat (sint d)) ..< sint (limit p ! nat (sint d))})"

text \<open>The extents \<open>limit[d] - start[d]\<close> of a space, one for each dimension.\<close>

definition extents :: "dense_space \<Rightarrow> int list" where
  "extents s = map2 (\<lambda>l st. sint l - sint st) (limit s) (start s)"

text \<open>The values of a list of \<^verbatim>\<open>int\<close>s, and the list of \<^verbatim>\<open>int\<close>s with given values.\<close>

definition sints :: "c_int list \<Rightarrow> int list" where
  "sints xs = map sint xs"

definition c_ints :: "int list \<Rightarrow> c_int list" where
  "c_ints ks = map word_of_int ks"

text \<open>
  One step of a counter with the first position fastest, on the values of the positions,
  lower bounds and limits: \<open>None\<close> when the carry leaves the last position. Both
  successor functions are described by it below (\<open>cm_next_step\<close>, \<open>rm_next_step\<close>), as
  long as no position holds \<^verbatim>\<open>INT_MAX\<close>.
\<close>

fun cm_step :: "int list \<Rightarrow> int list \<Rightarrow> int list \<Rightarrow> int list option" where
  "cm_step (x # xs) (st # sts) (l # ls) =
     (if x + 1 \<ge> l then map_option ((#) st) (cm_step xs sts ls) else Some ((x + 1) # xs))"
| "cm_step _ _ _ = None"

text \<open>
  The values of all multi-indices between the lower bounds and the limits, listed with
  the first position fastest (\<open>cm_all\<close>) and with the last position fastest (\<open>rm_all\<close>).
\<close>

fun cm_all :: "int list \<Rightarrow> int list \<Rightarrow> int list list" where
  "cm_all (st # sts) (l # ls) =
     concat (map (\<lambda>rest. map (\<lambda>x. x # rest) [st..l - 1]) (cm_all sts ls))"
| "cm_all _ _ = [[]]"

definition rm_all :: "int list \<Rightarrow> int list \<Rightarrow> int list list" where
  "rm_all sts ls = map rev (cm_all (rev sts) (rev ls))"


section \<open>Properties\<close>

subsection \<open>Values of machine integers\<close>

lemma sint_c_int_bounds: "- 2147483648 \<le> sint (x :: c_int)" "sint x \<le> 2147483647"
  using sint_ge [of x] sint_lt [of x] by simp_all

lemma sint_of_int_c_int:
  assumes "- 2147483648 \<le> k" "k \<le> 2147483647"
  shows "sint (word_of_int k :: c_int) = k"
  using assms by (simp add: sint_sbintrunc' signed_take_bit_int_eq_self)

lemma sint_INT_MAX: "sint INT_MAX = 2147483647"
  by (simp add: INT_MAX_def)

lemma sint_succ:
  assumes "x \<noteq> INT_MAX"
  shows "sint (x + 1) = sint x + 1"
proof -
  have "sint x \<noteq> 2147483647"
  proof
    assume "sint x = 2147483647"
    then have "word_of_int (sint x) = (word_of_int 2147483647 :: c_int)" by simp
    then have "x = INT_MAX" by (simp add: INT_MAX_def)
    with assms show False by simp
  qed
  with sint_c_int_bounds [of x] have "- 2147483648 \<le> sint x + 1" "sint x + 1 < 2147483648"
    by simp_all
  then show ?thesis
    by (simp add: sint_word_add signed_take_bit_int_eq_self)
qed

lemma sints_Nil: "sints [] = []"
  by (simp add: sints_def)

lemma c_ints_sints [simp]: "c_ints (sints xs) = xs"
  by (simp add: c_ints_def sints_def map_idI)

lemma sints_c_ints:
  assumes "\<forall>k\<in>set ks. - 2147483648 \<le> k \<and> k \<le> 2147483647"
  shows "sints (c_ints ks) = ks"
  using assms by (simp add: sints_def c_ints_def sint_of_int_c_int map_idI)

subsection \<open>Dereferencing and the successor functions as counters\<close>

lemma array_to_tuple_drop:
  "N \<le> length arr \<Longrightarrow> array_to_tuple N arr = drop (length arr - N) arr"
proof (induction N arr rule: array_to_tuple.induct)
  case (1 arr)
  then show ?case by simp
next
  case (2 arr)
  then have "drop (length arr - 1) arr = [last arr]"
    by (cases arr rule: rev_cases) simp_all
  moreover from 2 have "arr ! (length arr - 1) = last arr"
    by (cases arr rule: rev_cases) simp_all
  ultimately show ?case by simp
next
  case (3 n arr)
  then have "Suc (length arr - Suc (Suc n)) = length arr - Suc n" by simp
  with 3 show ?case
    using Cons_nth_drop_Suc [of "length arr - Suc (Suc n)" arr] by simp
qed

lemma deref_index: "deref it = index it"
  by (simp add: deref_def array_to_tuple_drop)

lemma cm_step_head:
  assumes "x \<noteq> INT_MAX"
  shows "cm_step (sints (x # xs)) (sints (st # sts)) (sints (l # ls)) =
           (if l \<le>s x + 1 then map_option ((#) (sint st)) (cm_step (sints xs) (sints sts) (sints ls))
            else Some (sints ((x + 1) # xs)))"
  using assms by (simp add: sints_def word_sle_eq sint_succ)

lemma cm_next_suffix:
  assumes "start s = ps @ ss" "limit s = pl @ ll"
    "length ps = length pre" "length pl = length pre"
    "length ss = N" "length ll = N" "length suf = N" "0 < N"
    "INT_MAX \<notin> set suf"
  shows "cm_next N (pre @ suf) s =
           (case cm_step (sints suf) (sints ss) (sints ll) of
              None \<Rightarrow> limit s | Some suf' \<Rightarrow> pre @ c_ints suf')"
  using assms
proof (induction N arbitrary: pre suf ps ss pl ll)
  case 0
  then show ?case by simp
next
  case (Suc n)
  from Suc.prems obtain x suf' where suf: "suf = x # suf'" "length suf' = n"
    by (cases suf) auto
  from Suc.prems obtain st ss' where ss: "ss = st # ss'" "length ss' = n"
    by (cases ss) auto
  from Suc.prems obtain l ll' where ll: "ll = l # ll'" "length ll' = n"
    by (cases ll) auto
  from Suc.prems suf have x: "x \<noteq> INT_MAX" and suf': "INT_MAX \<notin> set suf'" by auto
  have d: "dim s - Suc n = length pre"
    using Suc.prems ss by (simp add: dim_def)
  have step: "cm_step (sints suf) (sints ss) (sints ll) =
           (if l \<le>s x + 1 then map_option ((#) (sint st)) (cm_step (sints suf') (sints ss') (sints ll'))
            else Some (sints ((x + 1) # suf')))"
    unfolding suf ss ll using x by (rule cm_step_head)
  show ?case
  proof (cases n)
    case 0
    with suf ss ll d Suc.prems show ?thesis
      unfolding step by (simp add: Let_def nth_append sints_Nil)
  next
    case (Suc m)
    have IH: "cm_next n ((pre @ [st]) @ suf') s =
           (case cm_step (sints suf') (sints ss') (sints ll') of
              None \<Rightarrow> limit s | Some suf'' \<Rightarrow> (pre @ [st]) @ c_ints suf'')"
      using Suc.prems suf ss ll Suc suf'
      by (intro Suc.IH [of "ps @ [st]" ss' "pl @ [l]" ll']) simp_all
    have c: "c_ints (sint st # ks) = st # c_ints ks" for ks
      by (simp add: c_ints_def)
    from Suc suf ss ll d Suc.prems IH show ?thesis
      unfolding step by (simp add: Let_def nth_append c split: option.splits)
  qed
qed

lemma cm_next_step:
  assumes "length arr = dim s" "length (limit s) = dim s" "0 < dim s" "INT_MAX \<notin> set arr"
  shows "cm_next (dim s) arr s =
           (case cm_step (sints arr) (sints (start s)) (sints (limit s)) of
              None \<Rightarrow> limit s | Some a \<Rightarrow> c_ints a)"
proof -
  have "cm_next (dim s) ([] @ arr) s =
          (case cm_step (sints arr) (sints (start s)) (sints (limit s)) of
             None \<Rightarrow> limit s | Some a \<Rightarrow> [] @ c_ints a)"
    using assms by (intro cm_next_suffix [where ps = "[]" and pl = "[]"]) (simp_all add: dim_def)
  then show ?thesis by (simp split: option.splits)
qed


lemma c_ints_rev_sints: "c_ints (rev (sints ys)) = rev ys"
  by (simp add: c_ints_def sints_def rev_map [symmetric] map_idI)

lemma c_ints_snoc: "c_ints (ks @ [sint st]) = c_ints ks @ [st]"
  by (simp add: c_ints_def)

lemma rm_next_prefix:
  assumes "start s = ps @ ss" "limit s = pl @ ll"
    "length ps = N" "length pl = N" "length pre = N" "0 < N"
    "INT_MAX \<notin> set pre"
  shows "rm_next N (pre @ suf) s =
           (case cm_step (sints (rev pre)) (sints (rev ps)) (sints (rev pl)) of
              None \<Rightarrow> limit s | Some pre' \<Rightarrow> c_ints (rev pre') @ suf)"
  using assms
proof (induction N arbitrary: pre suf ps ss pl ll)
  case 0
  then show ?case by simp
next
  case (Suc n)
  from Suc.prems obtain x pre' where pre: "pre = pre' @ [x]" "length pre' = n"
    by (cases pre rule: rev_cases) auto
  from Suc.prems obtain st ps' where ps: "ps = ps' @ [st]" "length ps' = n"
    by (cases ps rule: rev_cases) auto
  from Suc.prems obtain l pl' where pl: "pl = pl' @ [l]" "length pl' = n"
    by (cases pl rule: rev_cases) auto
  from Suc.prems pre have x: "x \<noteq> INT_MAX" and pre': "INT_MAX \<notin> set pre'" by auto
  have nth: "(pre @ suf) ! n = x" "limit s ! n = l" "start s ! n = st"
    using pre ps pl Suc.prems by (simp_all add: nth_append)
  have upd: "(pre @ suf)[n := v] = pre' @ v # suf" for v
    using pre by (simp add: list_update_append)
  have step: "cm_step (sints (rev pre)) (sints (rev ps)) (sints (rev pl)) =
           (if l \<le>s x + 1
            then map_option ((#) (sint st)) (cm_step (sints (rev pre')) (sints (rev ps')) (sints (rev pl')))
            else Some (sints ((x + 1) # rev pre')))"
    unfolding pre ps pl using cm_step_head [OF x, of "rev pre'" st "rev ps'" l "rev pl'"] by simp
  show ?case
  proof (cases n)
    case 0
    with pre ps pl Suc.prems show ?thesis
      unfolding step by (simp add: Let_def nth_append sints_Nil c_ints_rev_sints)
  next
    case (Suc m)
    have unfold: "rm_next (Suc n) (pre @ suf) s =
           (let arr = (pre @ suf)[n := (pre @ suf) ! n + 1]
            in if limit s ! n \<le>s arr ! n then rm_next n (arr[n := start s ! n]) s else arr)"
      using Suc by (simp add: Let_def)
    have IH: "rm_next n (pre' @ (st # suf)) s =
           (case cm_step (sints (rev pre')) (sints (rev ps')) (sints (rev pl')) of
              None \<Rightarrow> limit s | Some p \<Rightarrow> c_ints (rev p) @ (st # suf))"
      using Suc.prems pre ps pl Suc pre'
      by (intro Suc.IH [of ps' "st # ss" pl' "l # ll"]) simp_all
    have upd': "(pre' @ v # suf)[n := w] = pre' @ w # suf"
      and nth': "(pre' @ v # suf) ! n = v" for v w
      using pre by (simp_all add: list_update_append nth_append)
    have "rm_next (Suc n) (pre @ suf) s =
            (if l \<le>s x + 1 then rm_next n (pre' @ st # suf) s else pre' @ (x + 1) # suf)"
      unfolding unfold by (simp add: nth upd upd' nth' Let_def)
    also have "\<dots> = (case cm_step (sints (rev pre)) (sints (rev ps)) (sints (rev pl)) of
                        None \<Rightarrow> limit s | Some p \<Rightarrow> c_ints (rev p) @ suf)"
      unfolding step by (simp add: IH c_ints_rev_sints c_ints_snoc split: option.splits)
    finally show ?thesis .
  qed
qed

lemma rm_next_step:
  assumes "length arr = dim s" "length (limit s) = dim s" "0 < dim s" "INT_MAX \<notin> set arr"
  shows "rm_next (dim s) arr s =
           (case cm_step (sints (rev arr)) (sints (rev (start s))) (sints (rev (limit s))) of
              None \<Rightarrow> limit s | Some a \<Rightarrow> c_ints (rev a))"
proof -
  have "rm_next (dim s) (arr @ []) s =
          (case cm_step (sints (rev arr)) (sints (rev (start s))) (sints (rev (limit s))) of
             None \<Rightarrow> limit s | Some a \<Rightarrow> c_ints (rev a) @ [])"
    using assms by (intro rm_next_prefix [where ss = "[]" and ll = "[]"]) (simp_all add: dim_def)
  then show ?thesis by (simp split: option.splits)
qed

subsection \<open>The successor of the terminal index\<close>

lemma cm_step_limit: "length sts = length ls \<Longrightarrow> cm_step ls sts ls = None"
  by (induction sts ls rule: list_induct2) simp_all

lemma next_at_limit:
  assumes "0 < dim s" "length (limit s) = dim s" "INT_MAX \<notin> set (limit s)"
  shows "rm_next (dim s) (limit s) s = limit s" "cm_next (dim s) (limit s) s = limit s"
proof -
  have "cm_step (sints (limit s)) (sints (start s)) (sints (limit s)) = None"
    "cm_step (sints (rev (limit s))) (sints (rev (start s))) (sints (rev (limit s))) = None"
    using assms by (simp_all add: cm_step_limit dim_def sints_def)
  then show "rm_next (dim s) (limit s) s = limit s" "cm_next (dim s) (limit s) s = limit s"
    using assms by (simp_all add: rm_next_step cm_next_step)
qed

text \<open>
  Claim C10 says that the successor of the terminal index is the terminal index for
  every space with \<open>start[d] \<le> limit[d]\<close>. On the one-dimensional space from 0 to
  \<^verbatim>\<open>INT_MAX\<close> the increment of \<open>limit[0]\<close> overflows: both successor functions leave the
  index \<^verbatim>\<open>INT_MIN\<close>, which is not the terminal index.
\<close>

theorem next_terminal_overflows:
  "rm_next 1 (limit \<lparr>start = [0], limit = [2147483647]\<rparr>) \<lparr>start = [0], limit = [2147483647]\<rparr>
     = [- 2147483648]
   \<and> cm_next 1 (limit \<lparr>start = [0], limit = [2147483647]\<rparr>) \<lparr>start = [0], limit = [2147483647]\<rparr>
     = [- 2147483648]
   \<and> [- 2147483648] \<noteq> limit \<lparr>start = [0], limit = [2147483647]\<rparr>
   \<and> start \<lparr>start = [0], limit = [2147483647]\<rparr> ! 0 \<le>s limit \<lparr>start = [0], limit = [2147483647]\<rparr> ! 0"
  by code_simp

text \<open>
  Claim C10 as amended: for every space of at least one dimension in which no
  \<open>limit[d]\<close> is \<^verbatim>\<open>INT_MAX\<close>, the row-major and the column-major successor of the terminal
  index \<open>limit\<close> is the terminal index again, and advancing the end cursor of either
  order returns that cursor and no error.
\<close>

theorem next_terminal_is_terminal:
  assumes "0 < dim s" "length (limit s) = dim s" "INT_MAX \<notin> set (limit s)"
  shows "rm_next (dim s) (limit s) s = limit s \<and> cm_next (dim s) (limit s) s = limit s
       \<and> incr (rm_order_end s) = Inr (rm_order_end s)
       \<and> incr (cm_order_end s) = Inr (cm_order_end s)"
  using assms next_at_limit [of s]
  by (simp add: incr_def rm_order_end_def cm_order_end_def iteration_of_def)

theorem next_terminal_is_terminal_witness:
  "rm_next (dim \<lparr>start = [1, 1], limit = [4, 4]\<rparr>) (limit \<lparr>start = [1, 1], limit = [4, 4]\<rparr>)
       \<lparr>start = [1, 1], limit = [4, 4]\<rparr> = limit \<lparr>start = [1, 1], limit = [4, 4]\<rparr>
   \<and> cm_next (dim \<lparr>start = [1, 1], limit = [4, 4]\<rparr>) (limit \<lparr>start = [1, 1], limit = [4, 4]\<rparr>)
       \<lparr>start = [1, 1], limit = [4, 4]\<rparr> = limit \<lparr>start = [1, 1], limit = [4, 4]\<rparr>
   \<and> incr (rm_order_end \<lparr>start = [1, 1], limit = [4, 4]\<rparr>)
        = Inr (rm_order_end \<lparr>start = [1, 1], limit = [4, 4]\<rparr>)
   \<and> incr (cm_order_end \<lparr>start = [1, 1], limit = [4, 4]\<rparr>)
        = Inr (cm_order_end \<lparr>start = [1, 1], limit = [4, 4]\<rparr>)"
proof -
  have "INT_MAX \<notin> set (limit \<lparr>start = [1, 1], limit = [4, 4]\<rparr>)"
    by code_simp
  then show ?thesis
    using next_terminal_is_terminal [of "\<lparr>start = [1, 1], limit = [4, 4]\<rparr>"]
    by (simp add: dim_def)
qed

subsection \<open>The list of all multi-indices\<close>

lemma successively_block:
  assumes "j < l"
  shows "successively (\<lambda>a b. cm_step a (st # sts) (l # ls) = Some b)
           (map (\<lambda>x. x # r) [i..j])"
  using assms
proof (induction i j rule: upto.induct)
  case (1 i j)
  show ?case
  proof (cases "i \<le> j")
    case False
    then show ?thesis by simp
  next
    case True
    then have unfold: "[i..j] = i # [i + 1..j]" by (simp add: upto_rec1)
    show ?thesis
    proof (cases "i + 1 \<le> j")
      case False
      with unfold show ?thesis by simp
    next
      case le: True
      then have "[i + 1..j] = (i + 1) # [i + 1 + 1..j]" by (simp add: upto_rec1)
      with 1 True le unfold show ?thesis
        by (simp add: successively_Cons)
    qed
  qed
qed

lemma block_props:
  assumes "st < l"
  shows "map (\<lambda>x. x # r) [st..l - 1] \<noteq> []"
    and "hd (map (\<lambda>x. x # r) [st..l - 1]) = st # r"
    and "last (map (\<lambda>x. x # r) [st..l - 1]) = (l - 1) # r"
proof -
  from assms have ne: "[st..l - 1] \<noteq> []" by simp
  then show "map (\<lambda>x. x # r) [st..l - 1] \<noteq> []" by simp
  from assms have "[st..l - 1] = st # [st + 1..l - 1]" by (simp add: upto_rec1)
  then show "hd (map (\<lambda>x. x # r) [st..l - 1]) = st # r" by simp
  from assms have "[st..l - 1] = [st..l - 1 - 1] @ [l - 1]" by (simp add: upto_rec2)
  then show "last (map (\<lambda>x. x # r) [st..l - 1]) = (l - 1) # r"
    by (metis last_map last_snoc ne)
qed

lemma blocks_nonempty:
  assumes "st < l" "R \<noteq> []"
  shows "concat (map (\<lambda>rest. map (\<lambda>x. x # rest) [st..l - 1]) R) \<noteq> []"
    and "hd (concat (map (\<lambda>rest. map (\<lambda>x. x # rest) [st..l - 1]) R)) = st # hd R"
  using assms block_props [of st l "hd R"] by (cases R; simp)+

lemma blocks_last:
  assumes "st < l" "R \<noteq> []"
  shows "last (concat (map (\<lambda>rest. map (\<lambda>x. x # rest) [st..l - 1]) R)) = (l - 1) # last R"
  using assms(2)
proof (induction R rule: rev_nonempty_induct)
  case (single r)
  then show ?case using block_props [OF assms(1)] by simp
next
  case (snoc r R)
  then show ?case using block_props [OF assms(1)] by simp
qed

lemma blocks_successively:
  assumes "st < l" "successively (\<lambda>a b. cm_step a sts ls = Some b) R"
  shows "successively (\<lambda>a b. cm_step a (st # sts) (l # ls) = Some b)
           (concat (map (\<lambda>rest. map (\<lambda>x. x # rest) [st..l - 1]) R))"
  using assms(2)
proof (induction R)
  case Nil
  then show ?case by simp
next
  case (Cons r R)
  let ?block = "\<lambda>rest. map (\<lambda>x. x # rest) [st..l - 1]"
  let ?P = "\<lambda>a b. cm_step a (st # sts) (l # ls) = Some b"
  have inner: "successively ?P (?block r)"
    by (rule successively_block) simp
  from Cons have rest: "successively ?P (concat (map ?block R))"
    by (cases "R = []") (simp_all add: successively_Cons)
  have link: "?P (last (?block r)) (hd (concat (map ?block R)))" if "R \<noteq> []"
  proof -
    from that Cons.prems have "cm_step r sts ls = Some (hd R)"
      by (simp add: successively_Cons)
    with that assms(1) show ?thesis
      by (simp add: block_props blocks_nonempty)
  qed
  show ?case
  proof (cases "R = []")
    case True
    with inner show ?thesis by simp
  next
    case False
    with inner rest link show ?thesis
      by (simp add: successively_append_iff)
  qed
qed

lemma cm_all_nonempty:
  assumes "list_all2 (<) sts ls"
  shows "cm_all sts ls \<noteq> [] \<and> hd (cm_all sts ls) = sts
       \<and> last (cm_all sts ls) = map (\<lambda>l. l - 1) ls"
  using assms
proof (induction rule: list_all2_induct)
  case Nil
  then show ?case by simp
next
  case (Cons st sts l ls)
  then show ?case
    by (simp add: blocks_nonempty blocks_last)
qed

lemma cm_all_successively:
  assumes "list_all2 (<) sts ls"
  shows "successively (\<lambda>a b. cm_step a sts ls = Some b) (cm_all sts ls)"
  using assms
proof (induction rule: list_all2_induct)
  case Nil
  then show ?case by simp
next
  case (Cons st sts l ls)
  then show ?case by (simp add: blocks_successively)
qed

lemma cm_step_last:
  "length sts = length ls \<Longrightarrow> cm_step (map (\<lambda>l. l - 1) ls) sts ls = None"
  by (induction sts ls rule: list_induct2) simp_all

lemma set_cm_all:
  assumes "length sts = length ls"
  shows "set (cm_all sts ls) = {idx. list_all2 (\<le>) sts idx \<and> list_all2 (<) idx ls}"
  using assms
proof (induction sts ls rule: list_induct2)
  case Nil
  then show ?case by auto
next
  case (Cons st sts l ls)
  show ?case
  proof (intro set_eqI iffI)
    fix idx
    assume "idx \<in> set (cm_all (st # sts) (l # ls))"
    then obtain x r where "idx = x # r" "st \<le> x" "x \<le> l - 1" "r \<in> set (cm_all sts ls)"
      by auto
    with Cons.IH show "idx \<in> {idx. list_all2 (\<le>) (st # sts) idx \<and> list_all2 (<) idx (l # ls)}"
      by simp
  next
    fix idx
    assume "idx \<in> {idx. list_all2 (\<le>) (st # sts) idx \<and> list_all2 (<) idx (l # ls)}"
    then obtain x r where "idx = x # r" "st \<le> x" "x < l"
      "list_all2 (\<le>) sts r" "list_all2 (<) r ls"
      by (auto simp add: list_all2_Cons1)
    with Cons.IH show "idx \<in> set (cm_all (st # sts) (l # ls))"
      by auto
  qed
qed

lemma blocks_distinct:
  assumes "distinct R"
  shows "distinct (concat (map (\<lambda>rest. map (\<lambda>x. x # rest) [i..j]) R))"
  using assms
proof (induction R)
  case Nil
  then show ?case by simp
next
  case (Cons r R)
  have "distinct (map (\<lambda>x. x # r) [i..j])"
    by (simp add: distinct_map inj_on_def)
  with Cons show ?case by auto
qed

lemma distinct_cm_all: "distinct (cm_all sts ls)"
  by (induction sts ls rule: cm_all.induct) (simp_all add: blocks_distinct)

lemma blocks_length:
  "length (concat (map (\<lambda>rest. map (\<lambda>x. x # rest) [i..j]) R)) = length R * nat (j - i + 1)"
  by (induction R) simp_all

lemma length_cm_all:
  assumes "list_all2 (<) sts ls"
  shows "int (length (cm_all sts ls)) = prod_list (map2 (\<lambda>l st. l - st) ls sts)"
  using assms
proof (induction rule: list_all2_induct)
  case Nil
  then show ?case by simp
next
  case (Cons st sts l ls)
  then show ?case by (simp add: blocks_length)
qed

subsection \<open>The driving loop visits the list of all multi-indices\<close>

lemma driving_loop_chain:
  assumes "successively (\<lambda>a b. f a s = b) (x # xs)"
    and "f (last (x # xs)) s = limit s"
    and "limit s \<notin> set (x # xs)"
  shows "driving_loop \<lparr>index = x, order = Some f, its_space = s\<rparr>
           \<lparr>index = limit s, order = Some f, its_space = s\<rparr> acc
         = Some (Inr (acc @ x # xs))"
  using assms
proof (induction xs arbitrary: x acc)
  case Nil
  let ?e = "\<lparr>index = limit s, order = Some f, its_space = s\<rparr>"
  have stop: "driving_loop ?e ?e (acc @ [x]) = Some (Inr (acc @ [x]))"
    by (subst driving_loop.simps) (simp add: iteration_ne_def dense_space_ne_def)
  from Nil show ?case
    by (subst driving_loop.simps)
      (simp add: iteration_ne_def dense_space_ne_def incr_def deref_index stop)
next
  case (Cons y ys)
  then have step: "f x s = y" and rest: "successively (\<lambda>a b. f a s = b) (y # ys)"
    by (simp_all add: successively_Cons)
  from Cons.prems have "f (last (y # ys)) s = limit s" "limit s \<notin> set (y # ys)"
    by simp_all
  with rest have IH: "driving_loop \<lparr>index = y, order = Some f, its_space = s\<rparr>
           \<lparr>index = limit s, order = Some f, its_space = s\<rparr> (acc @ [x])
         = Some (Inr ((acc @ [x]) @ y # ys))"
    by (rule Cons.IH)
  from Cons.prems have "limit s \<noteq> x" by auto
  with step IH show ?case
    by (subst driving_loop.simps)
      (simp add: iteration_ne_def dense_space_ne_def incr_def deref_index)
qed

lemma driving_loop_list:
  assumes "xs \<noteq> []" "hd xs = start s"
    and "successively (\<lambda>a b. f a s = b) xs"
    and "f (last xs) s = limit s"
    and "limit s \<notin> set xs"
  shows "driving_loop ((iteration_of s)\<lparr>order := Some f\<rparr>)
           ((iteration_of s)\<lparr>index := limit s, order := Some f\<rparr>) []
         = Some (Inr xs)"
proof -
  from assms(1,2) obtain ys where xs: "xs = start s # ys" by (cases xs) auto
  show ?thesis
    using driving_loop_chain [of f s "start s" ys "[]"] assms(3-5)
    unfolding xs by (simp add: iteration_of_def)
qed

lemma in_cm_all_length:
  assumes "length sts = length ls" "idx \<in> set (cm_all sts ls)"
  shows "length idx = length ls"
  using assms by (auto simp add: set_cm_all dest: list_all2_lengthD)

lemma limit_notin_cm_all:
  assumes "length sts = length ls" "ls \<noteq> []"
  shows "ls \<notin> set (cm_all sts ls)"
proof
  assume "ls \<in> set (cm_all sts ls)"
  with assms(1) have "list_all2 (<) ls ls" by (simp add: set_cm_all)
  with assms(2) show False by (cases ls) simp_all
qed

lemma set_rm_all:
  assumes "length sts = length ls"
  shows "set (rm_all sts ls) = {idx. list_all2 (\<le>) sts idx \<and> list_all2 (<) idx ls}"
proof -
  have "set (rm_all sts ls) = rev ` {idx. list_all2 (\<le>) (rev sts) idx \<and> list_all2 (<) idx (rev ls)}"
    using assms by (simp add: rm_all_def set_cm_all)
  also have "\<dots> = {idx. list_all2 (\<le>) sts idx \<and> list_all2 (<) idx ls}"
  proof (intro set_eqI iffI)
    fix idx
    assume "idx \<in> rev ` {idx. list_all2 (\<le>) (rev sts) idx \<and> list_all2 (<) idx (rev ls)}"
    then obtain c where c: "idx = rev c" "list_all2 (\<le>) (rev sts) c" "list_all2 (<) c (rev ls)"
      by auto
    from c(2) have "list_all2 (\<le>) (rev (rev sts)) (rev c)" by (simp only: list_all2_rev)
    moreover from c(3) have "list_all2 (<) (rev c) (rev (rev ls))" by (simp only: list_all2_rev)
    ultimately show "idx \<in> {idx. list_all2 (\<le>) sts idx \<and> list_all2 (<) idx ls}"
      using c(1) by simp
  next
    fix idx
    assume "idx \<in> {idx. list_all2 (\<le>) sts idx \<and> list_all2 (<) idx ls}"
    then have "list_all2 (\<le>) (rev sts) (rev idx)" "list_all2 (<) (rev idx) (rev ls)"
      by simp_all
    then have "rev (rev idx) \<in> rev ` {idx. list_all2 (\<le>) (rev sts) idx \<and> list_all2 (<) idx (rev ls)}"
      by blast
    then show "idx \<in> rev ` {idx. list_all2 (\<le>) (rev sts) idx \<and> list_all2 (<) idx (rev ls)}"
      by simp
  qed
  finally show ?thesis .
qed

lemma distinct_rm_all: "distinct (rm_all sts ls)"
  by (simp add: rm_all_def distinct_map distinct_cm_all)

lemma length_rm_all:
  assumes "list_all2 (<) sts ls"
  shows "int (length (rm_all sts ls)) = prod_list (map2 (\<lambda>l st. l - st) ls sts)"
proof -
  from assms have len: "length ls = length sts" by (simp add: list_all2_lengthD)
  from assms have "list_all2 (<) (rev sts) (rev ls)" by simp
  then have "int (length (rm_all sts ls)) = prod_list (map2 (\<lambda>l st. l - st) (rev ls) (rev sts))"
    by (simp add: rm_all_def length_cm_all)
  also have "\<dots> = prod_list (rev (map2 (\<lambda>l st. l - st) ls sts))"
    using len by (simp add: zip_rev rev_map)
  finally show ?thesis by (simp only: prod_list.rev)
qed


subsection \<open>Multi-indices as lists of machine integers\<close>

lemma list_all2_sints:
  "list_all2 (\<le>) (sints xs) (sints ys) = list_all2 (\<le>s) xs ys"
  "list_all2 (<) (sints xs) (sints ys) = list_all2 (<s) xs ys"
proof -
  have "(\<le>s) = (\<lambda>x y :: c_int. sint x \<le> sint y)" "(<s) = (\<lambda>x y :: c_int. sint x < sint y)"
    by (intro ext, simp add: word_sle_eq word_sless_alt)+
  then show "list_all2 (\<le>) (sints xs) (sints ys) = list_all2 (\<le>s) xs ys"
    "list_all2 (<) (sints xs) (sints ys) = list_all2 (<s) xs ys"
    by (simp_all add: sints_def list_all2_map1 list_all2_map2)
qed

lemma box_in_range:
  assumes "list_all2 (\<le>) (sints sts) a" "list_all2 (<) a (sints ls)"
  shows "sints (c_ints a) = a" and "INT_MAX \<notin> set (c_ints a)"
proof -
  have r: "- 2147483648 \<le> k \<and> k < 2147483647" if "k \<in> set a" for k
  proof -
    from that obtain i where i: "i < length a" "a ! i = k"
      by (auto simp add: in_set_conv_nth)
    from assms(1) i have "sint (sts ! i) \<le> k"
      by (auto simp add: list_all2_conv_all_nth sints_def)
    moreover from assms(2) i have "k < sint (ls ! i)"
      by (auto simp add: list_all2_conv_all_nth sints_def)
    ultimately show ?thesis
      using sint_c_int_bounds(1) [of "sts ! i"] sint_c_int_bounds(2) [of "ls ! i"] by simp
  qed
  then have "\<forall>k\<in>set a. - 2147483648 \<le> k \<and> k \<le> 2147483647"
    by force
  then show "sints (c_ints a) = a"
    by (rule sints_c_ints)
  show "INT_MAX \<notin> set (c_ints a)"
  proof
    assume "INT_MAX \<in> set (c_ints a)"
    then obtain k where k: "k \<in> set a" "word_of_int k = INT_MAX"
      by (auto simp add: c_ints_def)
    from r [OF k(1)] have "sint (word_of_int k :: c_int) = k"
      by (intro sint_of_int_c_int) simp_all
    with k(2) r [OF k(1)] show False by (simp add: sint_INT_MAX)
  qed
qed

lemma cm_all_in_range:
  assumes "length sts = length ls" "a \<in> set (cm_all (sints sts) (sints ls))"
  shows "sints (c_ints a) = a" and "INT_MAX \<notin> set (c_ints a)" and "length (c_ints a) = length ls"
proof -
  from assms have b: "list_all2 (\<le>) (sints sts) a" "list_all2 (<) a (sints ls)"
    by (simp_all add: set_cm_all sints_def)
  then show "sints (c_ints a) = a" "INT_MAX \<notin> set (c_ints a)"
    by (rule box_in_range)+
  from b(2) show "length (c_ints a) = length ls"
    by (simp add: c_ints_def sints_def list_all2_lengthD)
qed

lemma c_ints_box:
  "c_ints ` {a. list_all2 (\<le>) (sints sts) a \<and> list_all2 (<) a (sints ls)}
     = {idx. list_all2 (\<le>s) sts idx \<and> list_all2 (<s) idx ls}"
proof (intro set_eqI iffI)
  fix idx
  assume "idx \<in> c_ints ` {a. list_all2 (\<le>) (sints sts) a \<and> list_all2 (<) a (sints ls)}"
  then obtain a where a: "idx = c_ints a" "list_all2 (\<le>) (sints sts) a" "list_all2 (<) a (sints ls)"
    by auto
  then have "sints idx = a" by (simp add: box_in_range)
  with a(2,3) show "idx \<in> {idx. list_all2 (\<le>s) sts idx \<and> list_all2 (<s) idx ls}"
    by (simp add: list_all2_sints [symmetric])
next
  fix idx
  assume "idx \<in> {idx. list_all2 (\<le>s) sts idx \<and> list_all2 (<s) idx ls}"
  then have "list_all2 (\<le>) (sints sts) (sints idx)" "list_all2 (<) (sints idx) (sints ls)"
    by (simp_all add: list_all2_sints)
  then have "c_ints (sints idx) \<in> c_ints ` {a. list_all2 (\<le>) (sints sts) a \<and> list_all2 (<) a (sints ls)}"
    by blast
  then show "idx \<in> c_ints ` {a. list_all2 (\<le>) (sints sts) a \<and> list_all2 (<) a (sints ls)}"
    by simp
qed

lemma c_ints_inj_box:
  "inj_on c_ints {a. list_all2 (\<le>) (sints sts) a \<and> list_all2 (<) a (sints ls)}"
  by (rule inj_on_inverseI [where g = sints]) (auto intro: box_in_range(1))

lemma box_conv:
  assumes "length ls = length sts"
  shows "{idx. list_all2 (\<le>s) sts idx \<and> list_all2 (<s) idx ls}
       = {idx. length idx = length sts
            \<and> (\<forall>d<length sts. sts ! d \<le>s idx ! d \<and> idx ! d <s ls ! d)}"
proof (intro set_eqI iffI)
  fix idx
  assume "idx \<in> {idx. list_all2 (\<le>s) sts idx \<and> list_all2 (<s) idx ls}"
  then have "list_all2 (\<le>s) sts idx" "list_all2 (<s) idx ls" by simp_all
  then have "length sts = length idx" "\<forall>d<length sts. sts ! d \<le>s idx ! d"
    "\<forall>d<length idx. idx ! d <s ls ! d"
    by (simp_all add: list_all2_conv_all_nth)
  then show "idx \<in> {idx. length idx = length sts
            \<and> (\<forall>d<length sts. sts ! d \<le>s idx ! d \<and> idx ! d <s ls ! d)}"
    by simp
next
  fix idx
  assume "idx \<in> {idx. length idx = length sts
            \<and> (\<forall>d<length sts. sts ! d \<le>s idx ! d \<and> idx ! d <s ls ! d)}"
  then have l: "length idx = length sts"
    and b: "\<forall>d<length sts. sts ! d \<le>s idx ! d \<and> idx ! d <s ls ! d" by simp_all
  from l b have "list_all2 (\<le>s) sts idx"
    by (simp add: list_all2_conv_all_nth)
  moreover from l b assms have "list_all2 (<s) idx ls"
    by (simp add: list_all2_conv_all_nth)
  ultimately show "idx \<in> {idx. list_all2 (\<le>s) sts idx \<and> list_all2 (<s) idx ls}"
    by simp
qed

lemma positive_conv:
  assumes "length (limit s) = dim s" "\<forall>d<dim s. start s ! d <s limit s ! d"
  shows "list_all2 (<) (sints (start s)) (sints (limit s))"
proof -
  have "list_all2 (<s) (start s) (limit s)"
    using assms by (simp add: list_all2_conv_all_nth dim_def)
  then show ?thesis by (simp add: list_all2_sints)
qed

lemma extents_sints:
  "map2 (\<lambda>l st. l - st) (sints ls) (sints sts) = map2 (\<lambda>l st. sint l - sint st) ls sts"
  by (simp add: sints_def zip_map_map case_prod_unfold)

subsection \<open>The loops of both orders\<close>

lemma cm_iterate_all:
  assumes "0 < dim s" "length (limit s) = dim s"
    "list_all2 (<) (sints (start s)) (sints (limit s))"
  shows "cm_iterate s = Some (Inr (map c_ints (cm_all (sints (start s)) (sints (limit s)))))"
proof -
  let ?S = "sints (start s)" and ?L = "sints (limit s)"
  let ?X = "cm_all ?S ?L"
  from assms have len: "length (start s) = length (limit s)" "length (limit s) = dim s"
    "0 < dim s" and lt: "list_all2 (<) ?S ?L"
    by (simp_all add: dim_def)
  have "successively (\<lambda>a b. cm_step a ?S ?L = Some b) ?X"
    using lt by (rule cm_all_successively)
  then have "successively (\<lambda>a b. cm_next (dim s) (c_ints a) s = c_ints b) ?X"
  proof (rule successively_mono)
    fix a b
    assume a: "a \<in> set ?X" and st: "cm_step a ?S ?L = Some b"
    note r = cm_all_in_range [OF len(1) a]
    from r(3) len(2) have "length (c_ints a) = dim s" by simp
    then have "cm_next (dim s) (c_ints a) s =
        (case cm_step (sints (c_ints a)) ?S ?L of None \<Rightarrow> limit s | Some a \<Rightarrow> c_ints a)"
      using len(2,3) r(2) by (rule cm_next_step)
    with st r(1) show "cm_next (dim s) (c_ints a) s = c_ints b" by simp
  qed
  then have "successively (\<lambda>a b. cm_next (dim s) a s = b) (map c_ints ?X)"
    by (simp add: successively_map)
  moreover have ne: "?X \<noteq> []" and hd: "hd ?X = ?S" and la: "last ?X = map (\<lambda>l. l - 1) ?L"
    using lt by (simp_all add: cm_all_nonempty)
  then have "map c_ints ?X \<noteq> []" "hd (map c_ints ?X) = start s"
    by (simp_all add: hd_map)
  moreover have "cm_next (dim s) (last (map c_ints ?X)) s = limit s"
  proof -
    from ne have a: "last ?X \<in> set ?X" by simp
    note r = cm_all_in_range [OF len(1) a]
    have "cm_step (last ?X) ?S ?L = None"
      unfolding la using len(1) by (intro cm_step_last) (simp add: sints_def)
    moreover from r(3) len(2) have "length (c_ints (last ?X)) = dim s" by simp
    then have "cm_next (dim s) (c_ints (last ?X)) s =
        (case cm_step (sints (c_ints (last ?X))) ?S ?L of None \<Rightarrow> limit s | Some a \<Rightarrow> c_ints a)"
      using len(2,3) r(2) by (rule cm_next_step)
    ultimately show ?thesis using ne r(1) by (simp add: last_map)
  qed
  moreover have "limit s \<notin> set (map c_ints ?X)"
  proof
    assume "limit s \<in> set (map c_ints ?X)"
    then obtain a where a: "a \<in> set ?X" "limit s = c_ints a" by auto
    from cm_all_in_range(1) [OF len(1) a(1)] a(2) have "?L = a" by simp
    with a(1) have "?L \<in> set ?X" by simp
    moreover have "?L \<notin> set ?X"
      using len by (intro limit_notin_cm_all) (auto simp add: sints_def)
    ultimately show False by simp
  qed
  ultimately show ?thesis
    unfolding cm_iterate_def cm_order_begin_def cm_order_end_def
    by (intro driving_loop_list)
qed

lemma rm_iterate_all:
  assumes "0 < dim s" "length (limit s) = dim s"
    "list_all2 (<) (sints (start s)) (sints (limit s))"
  shows "rm_iterate s = Some (Inr (map c_ints (rm_all (sints (start s)) (sints (limit s)))))"
proof -
  let ?S = "sints (rev (start s))" and ?L = "sints (rev (limit s))"
  let ?X = "cm_all ?S ?L"
  let ?f = "\<lambda>a. c_ints (rev a)"
  have revs: "rev (sints (start s)) = ?S" "rev (sints (limit s)) = ?L"
    by (simp_all add: sints_def rev_map)
  from assms have len: "length (rev (start s)) = length (rev (limit s))"
    "length (limit s) = dim s" "0 < dim s"
    by (simp_all add: dim_def)
  from assms(3) have lt: "list_all2 (<) ?S ?L"
    unfolding revs [symmetric] by simp
  have vis: "map c_ints (rm_all (sints (start s)) (sints (limit s))) = map ?f ?X"
    by (simp add: rm_all_def revs)
  have rev_f: "rev (?f a) = c_ints a" for a
    by (simp add: c_ints_def rev_map)
  have "successively (\<lambda>a b. cm_step a ?S ?L = Some b) ?X"
    using lt by (rule cm_all_successively)
  then have "successively (\<lambda>a b. rm_next (dim s) (?f a) s = ?f b) ?X"
  proof (rule successively_mono)
    fix a b
    assume a: "a \<in> set ?X" and st: "cm_step a ?S ?L = Some b"
    note r = cm_all_in_range [OF len(1) a]
    from r(3) len(2) have l: "length (?f a) = dim s" by (simp add: c_ints_def)
    from r(2) have m: "INT_MAX \<notin> set (?f a)" by (simp add: c_ints_def)
    have "rm_next (dim s) (?f a) s =
        (case cm_step (sints (rev (?f a))) ?S ?L of None \<Rightarrow> limit s | Some a \<Rightarrow> c_ints (rev a))"
      using l len(2,3) m by (rule rm_next_step)
    with st r(1) show "rm_next (dim s) (?f a) s = ?f b" by (simp add: rev_f)
  qed
  then have "successively (\<lambda>a b. rm_next (dim s) a s = b) (map ?f ?X)"
    by (simp add: successively_map)
  moreover have ne: "?X \<noteq> []" and hd: "hd ?X = ?S" and la: "last ?X = map (\<lambda>l. l - 1) ?L"
    using lt by (simp_all add: cm_all_nonempty)
  then have "map ?f ?X \<noteq> []" "hd (map ?f ?X) = start s"
    by (simp_all add: hd_map c_ints_def sints_def rev_map map_idI)
  moreover have "rm_next (dim s) (last (map ?f ?X)) s = limit s"
  proof -
    from ne have a: "last ?X \<in> set ?X" by simp
    note r = cm_all_in_range [OF len(1) a]
    have "cm_step (last ?X) ?S ?L = None"
      unfolding la by (intro cm_step_last) (simp add: sints_def dim_def assms(2))
    moreover from r(3) len(2) have l: "length (?f (last ?X)) = dim s" by (simp add: c_ints_def)
    from r(2) have m: "INT_MAX \<notin> set (?f (last ?X))" by (simp add: c_ints_def)
    have "rm_next (dim s) (?f (last ?X)) s =
        (case cm_step (sints (rev (?f (last ?X)))) ?S ?L of
           None \<Rightarrow> limit s | Some a \<Rightarrow> c_ints (rev a))"
      using l len(2,3) m by (rule rm_next_step)
    ultimately show ?thesis using ne r(1) by (simp add: last_map rev_f)
  qed
  moreover have "limit s \<notin> set (map ?f ?X)"
  proof
    assume "limit s \<in> set (map ?f ?X)"
    then obtain a where a: "a \<in> set ?X" "limit s = ?f a" by auto
    from a(2) have "rev (limit s) = c_ints a" by (simp add: rev_f)
    with cm_all_in_range(1) [OF len(1) a(1)] have "?L = a" by simp
    with a(1) have "?L \<in> set ?X" by simp
    moreover have "?L \<notin> set ?X"
      using len by (intro limit_notin_cm_all) (auto simp add: sints_def dim_def)
    ultimately show False by simp
  qed
  ultimately show ?thesis
    unfolding rm_iterate_def rm_order_begin_def rm_order_end_def vis
    by (intro driving_loop_list)
qed


text \<open>
  Claim C3: for every space of at least one dimension whose extents
  \<open>limit[d] - start[d]\<close> are all positive, the driving loop under row-major order
  terminates; the number of multi-indices it visits is the product of the extents, no
  multi-index is visited twice, and the visited multi-indices are exactly the tuples
  \<open>idx\<close> with \<open>start[d] \<le> idx[d] < limit[d]\<close> in every dimension.
\<close>

theorem rm_iterate_visits_product:
  assumes "0 < dim s" "length (limit s) = dim s" "\<forall>d<dim s. start s ! d <s limit s ! d"
  shows "\<exists>visited. rm_iterate s = Some (Inr visited)
           \<and> int (length visited) = prod_list (extents s)
           \<and> distinct visited
           \<and> set visited = {idx. length idx = dim s
                 \<and> (\<forall>d<dim s. start s ! d \<le>s idx ! d \<and> idx ! d <s limit s ! d)}"
proof -
  let ?S = "sints (start s)" and ?L = "sints (limit s)"
  let ?V = "map c_ints (rm_all ?S ?L)"
  from assms have lt: "list_all2 (<) ?S ?L" by (simp add: positive_conv)
  then have len: "length ?S = length ?L" by (rule list_all2_lengthD)
  have box: "set (rm_all ?S ?L) = {a. list_all2 (\<le>) ?S a \<and> list_all2 (<) a ?L}"
    using len by (rule set_rm_all)
  have "rm_iterate s = Some (Inr ?V)"
    using assms(1,2) lt by (rule rm_iterate_all)
  moreover have "int (length ?V) = prod_list (extents s)"
    using lt by (simp add: length_rm_all extents_def extents_sints)
  moreover have "distinct ?V"
  proof -
    have "inj_on c_ints (set (rm_all ?S ?L))"
      unfolding box by (rule c_ints_inj_box)
    then show ?thesis
      using distinct_rm_all by (simp add: distinct_map)
  qed
  moreover have "set ?V = {idx. length idx = dim s
                 \<and> (\<forall>d<dim s. start s ! d \<le>s idx ! d \<and> idx ! d <s limit s ! d)}"
  proof -
    have "set ?V = c_ints ` set (rm_all ?S ?L)" by simp
    also have "\<dots> = {idx. list_all2 (\<le>s) (start s) idx \<and> list_all2 (<s) idx (limit s)}"
      unfolding box by (rule c_ints_box)
    also have "\<dots> = {idx. length idx = length (start s)
            \<and> (\<forall>d<length (start s). start s ! d \<le>s idx ! d \<and> idx ! d <s limit s ! d)}"
      using assms(2) by (intro box_conv) (simp add: dim_def)
    finally show ?thesis by (simp add: dim_def)
  qed
  ultimately show ?thesis by blast
qed

theorem rm_iterate_visits_product_witness:
  "\<exists>visited. rm_iterate \<lparr>start = [1, 1], limit = [4, 3]\<rparr> = Some (Inr visited)
      \<and> int (length visited) = 6 \<and> distinct visited"
proof -
  have "list_all2 (<s) (start \<lparr>start = [1, 1], limit = [4, 3]\<rparr>) (limit \<lparr>start = [1, 1], limit = [4, 3]\<rparr>)"
    by code_simp
  then have h: "\<forall>d<dim \<lparr>start = [1, 1], limit = [4, 3]\<rparr>.
          start \<lparr>start = [1, 1], limit = [4, 3]\<rparr> ! d <s limit \<lparr>start = [1, 1], limit = [4, 3]\<rparr> ! d"
    by (simp add: list_all2_conv_all_nth dim_def)
  have p: "prod_list (extents \<lparr>start = [1, 1], limit = [4, 3]\<rparr>) = 6"
    by code_simp
  from h show ?thesis
    using rm_iterate_visits_product [of "\<lparr>start = [1, 1], limit = [4, 3]\<rparr>"]
    unfolding p by (simp add: dim_def) blast
qed

text \<open>
  Claim C7: for every space of at least one dimension whose extents are all positive,
  the loops under row-major and under column-major order both terminate and visit the
  same multiset, and so the same set, of multi-indices.
\<close>

theorem rm_cm_same_indices:
  assumes "0 < dim s" "length (limit s) = dim s" "\<forall>d<dim s. start s ! d <s limit s ! d"
  shows "\<exists>vr vc. rm_iterate s = Some (Inr vr) \<and> cm_iterate s = Some (Inr vc)
           \<and> mset vr = mset vc \<and> set vr = set vc"
proof -
  let ?S = "sints (start s)" and ?L = "sints (limit s)"
  from assms have lt: "list_all2 (<) ?S ?L" by (simp add: positive_conv)
  then have len: "length ?S = length ?L" by (rule list_all2_lengthD)
  have r: "rm_iterate s = Some (Inr (map c_ints (rm_all ?S ?L)))"
    using assms(1,2) lt by (rule rm_iterate_all)
  have c: "cm_iterate s = Some (Inr (map c_ints (cm_all ?S ?L)))"
    using assms(1,2) lt by (rule cm_iterate_all)
  have eq: "set (rm_all ?S ?L) = set (cm_all ?S ?L)"
    using len by (simp add: set_rm_all set_cm_all)
  then have "mset (rm_all ?S ?L) = mset (cm_all ?S ?L)"
    using distinct_rm_all distinct_cm_all by (simp add: set_eq_iff_mset_eq_distinct)
  then have "mset (map c_ints (rm_all ?S ?L)) = mset (map c_ints (cm_all ?S ?L))"
    by simp
  moreover from eq have "set (map c_ints (rm_all ?S ?L)) = set (map c_ints (cm_all ?S ?L))"
    by simp
  ultimately show ?thesis using r c by blast
qed

theorem rm_cm_same_indices_witness:
  "\<exists>vr vc. rm_iterate \<lparr>start = [1, 1], limit = [4, 3]\<rparr> = Some (Inr vr)
       \<and> cm_iterate \<lparr>start = [1, 1], limit = [4, 3]\<rparr> = Some (Inr vc)
       \<and> mset vr = mset vc \<and> set vr = set vc"
proof -
  have "list_all2 (<s) (start \<lparr>start = [1, 1], limit = [4, 3]\<rparr>) (limit \<lparr>start = [1, 1], limit = [4, 3]\<rparr>)"
    by code_simp
  then have h: "\<forall>d<dim \<lparr>start = [1, 1], limit = [4, 3]\<rparr>.
          start \<lparr>start = [1, 1], limit = [4, 3]\<rparr> ! d <s limit \<lparr>start = [1, 1], limit = [4, 3]\<rparr> ! d"
    by (simp add: list_all2_conv_all_nth dim_def)
  from h show ?thesis
    using rm_cm_same_indices [of "\<lparr>start = [1, 1], limit = [4, 3]\<rparr>"]
    by (simp add: dim_def)
qed

subsection \<open>Spaces with a dimension of length zero\<close>

lemma driving_loop_extends:
  assumes "driving_loop it e acc = Some (Inr v)"
  shows "\<exists>w. v = acc @ w"
proof -
  have "\<forall>v. r = Inr v \<longrightarrow> (\<exists>w. v = acc @ w)" if h: "driving_loop it e acc = Some r" for r
  proof (rule driving_loop.raw_induct
      [where P = "\<lambda>it e acc r. \<forall>v. r = Inr v \<longrightarrow> (\<exists>w. v = acc @ w)", OF _ h])
    fix loop it e visited y
    assume IH: "\<And>i e' a r'. loop i e' a = Some r' \<Longrightarrow> \<forall>v. r' = Inr v \<longrightarrow> (\<exists>w. v = a @ w)"
      and eq: "(if iteration_ne it e
                then case incr it of Inl err \<Rightarrow> Some (Inl err)
                     | Inr it' \<Rightarrow> loop it' e (visited @ [deref it])
                else Some (Inr visited)) = Some y"
    show "\<forall>v. y = Inr v \<longrightarrow> (\<exists>w. v = visited @ w)"
    proof (cases "iteration_ne it e")
      case False
      with eq show ?thesis by auto
    next
      case True
      show ?thesis
      proof (cases "incr it")
        case (Inl err)
        with True eq show ?thesis by auto
      next
        case (Inr it')
        with True eq have "loop it' e (visited @ [deref it]) = Some y" by simp
        then have "\<forall>v. y = Inr v \<longrightarrow> (\<exists>w. v = (visited @ [deref it]) @ w)" by (rule IH)
        then show ?thesis by auto
      qed
    qed
  qed
  with assms show ?thesis by blast
qed

lemma begin_ne_end:
  assumes "length (limit s) = dim s"
  shows "iteration_ne (rm_order_begin s) (rm_order_end s) = (\<exists>d<dim s. start s ! d \<noteq> limit s ! d)"
    and "iteration_ne (cm_order_begin s) (cm_order_end s) = (\<exists>d<dim s. start s ! d \<noteq> limit s ! d)"
  using assms
  by (auto simp add: iteration_ne_def dense_space_ne_def rm_order_begin_def rm_order_end_def
      cm_order_begin_def cm_order_end_def iteration_of_def dim_def list_eq_iff_nth_eq)

lemma iterate_empty_iff:
  assumes "order b = Some f"
  shows "driving_loop b e [] = Some (Inr []) \<longleftrightarrow> \<not> iteration_ne b e"
proof (cases "iteration_ne b e")
  case False
  then show ?thesis by (subst driving_loop.simps) simp
next
  case True
  have "driving_loop b e [] \<noteq> Some (Inr [])"
  proof
    assume "driving_loop b e [] = Some (Inr [])"
    with True assms
    have "driving_loop (b\<lparr>index := f (index b) (its_space b)\<rparr>) e ([] @ [deref b]) = Some (Inr [])"
      by (subst (asm) driving_loop.simps) (simp add: incr_def)
    then show False using driving_loop_extends by fastforce
  qed
  with True show ?thesis by simp
qed

text \<open>
  Claim C5 says that the begin cursor equals the end cursor as soon as one dimension has
  \<open>start[d] = limit[d]\<close>. On the space with start \<open>[1,1]\<close> and limit \<open>[1,4]\<close> dimension 0
  has length zero, the two cursors differ and the loop runs three times.
\<close>

theorem zero_length_dimension_still_iterates:
  "start \<lparr>start = [1, 1], limit = [1, 4]\<rparr> ! 0 = limit \<lparr>start = [1, 1], limit = [1, 4]\<rparr> ! 0
   \<and> iteration_ne (rm_order_begin \<lparr>start = [1, 1], limit = [1, 4]\<rparr>)
                   (rm_order_end \<lparr>start = [1, 1], limit = [1, 4]\<rparr>)
   \<and> rm_iterate \<lparr>start = [1, 1], limit = [1, 4]\<rparr> = Some (Inr [[1, 1], [1, 2], [1, 3]])"
  by code_simp

text \<open>
  Claim C5 as amended: the begin cursor equals the end cursor, and the driving loop
  performs zero iterations, exactly when \<open>start[d] = limit[d]\<close> in every dimension;
  this holds for row-major and for column-major order.
\<close>

theorem begin_is_end_iff_all_zero_length:
  assumes "length (limit s) = dim s"
  shows "((\<not> iteration_ne (rm_order_begin s) (rm_order_end s))
            \<longleftrightarrow> (\<forall>d<dim s. start s ! d = limit s ! d))
       \<and> ((\<not> iteration_ne (cm_order_begin s) (cm_order_end s))
            \<longleftrightarrow> (\<forall>d<dim s. start s ! d = limit s ! d))
       \<and> (rm_iterate s = Some (Inr []) \<longleftrightarrow> (\<forall>d<dim s. start s ! d = limit s ! d))
       \<and> (cm_iterate s = Some (Inr []) \<longleftrightarrow> (\<forall>d<dim s. start s ! d = limit s ! d))"
proof -
  have r: "order (rm_order_begin s) = Some (rm_next (dim s))"
    and c: "order (cm_order_begin s) = Some (cm_next (dim s))"
    by (simp_all add: rm_order_begin_def cm_order_begin_def iteration_of_def)
  show ?thesis
    using begin_ne_end [OF assms] iterate_empty_iff [OF r] iterate_empty_iff [OF c]
    by (simp add: rm_iterate_def cm_iterate_def)
qed

theorem begin_is_end_iff_all_zero_length_witness:
  "rm_iterate \<lparr>start = [2, 3], limit = [2, 3]\<rparr> = Some (Inr [])
   \<and> cm_iterate \<lparr>start = [2, 3], limit = [2, 3]\<rparr> = Some (Inr [])"
  using begin_is_end_iff_all_zero_length [of "\<lparr>start = [2, 3], limit = [2, 3]\<rparr>"]
  by (simp add: dim_def)

subsection \<open>Static partitioning\<close>

lemma sle_one_nonzero:
  assumes "1 \<le>s (W :: c_int)"
  shows "W \<noteq> 0" "W \<noteq> - 1"
  using assms by (auto simp add: word_sle_eq)

text \<open>
  Claim C1 says that worker \<open>k\<close> of \<open>W\<close> receives the lower bound
  \<open>S.start[d] + (size / W) * k\<close>, and worker 0 of 2 on the space from 1 to 99 the bounds
  1 and 50. The code assigns \<open>(size / W) * k\<close> and \<open>size / W * (k + 1)\<close> without adding
  \<open>S.start[d]\<close>: on that space worker 0 of 2 receives the bounds 0 and 49, in the
  generic version and in the two-dimensional one.
\<close>

theorem partition_first_of_two:
  "partition 0 2 0 \<lparr>start = [1, 1], limit = [99, 99]\<rparr>
     = Inr \<lparr>start = [0, 1], limit = [49, 99]\<rparr>
   \<and> static_partition_2d 0 2 \<lparr>start_i = 1, end_i = 99, start_j = 1, end_j = 99\<rparr>
       = Inr \<lparr>start_i = 0, end_i = 49, start_j = 1, end_j = 99\<rparr>"
  by code_simp

text \<open>
  Claim C2 says that the slices of the workers cover the interval from \<open>S.start[d]\<close> to
  \<open>S.limit[d]\<close> exactly. On the space from 1 to 99 with two workers the slices are
  the intervals from 0 to 49 and from 49 to 99: their union starts at 0 and is not the
  interval of the space.
\<close>

theorem partition_union_of_two:
  "worker_slice 0 2 0 \<lparr>start = [1, 1], limit = [99, 99]\<rparr>
     \<union> worker_slice 1 2 0 \<lparr>start = [1, 1], limit = [99, 99]\<rparr> = {0..<99}
   \<and> {0..<99} \<noteq> {sint (start \<lparr>start = [1, 1], limit = [99, 99]\<rparr> ! 0) ..<
                   sint (limit \<lparr>start = [1, 1], limit = [99, 99]\<rparr> ! 0)}"
proof -
  have p0: "partition 0 2 0 \<lparr>start = [1, 1], limit = [99, 99]\<rparr>
              = Inr \<lparr>start = [0, 1], limit = [49, 99]\<rparr>"
    and p1: "partition 1 2 0 \<lparr>start = [1, 1], limit = [99, 99]\<rparr>
              = Inr \<lparr>start = [49, 1], limit = [99, 99]\<rparr>"
    by code_simp+
  have v: "sint (0 :: c_int) = 0" "sint (1 :: c_int) = 1" "sint (49 :: c_int) = 49"
    "sint (99 :: c_int) = 99"
    by code_simp+
  have "(0::int) \<in> {0..<99}" "(0::int) \<notin> {1..<99}" by simp_all
  then have "{0..<99} \<noteq> {1..<(99::int)}" by metis
  moreover have "{0..<49} \<union> {49..<99} = {0..<(99::int)}" by auto
  ultimately show ?thesis
    by (simp add: worker_slice_def p0 p1 v)
qed

text \<open>
  Claim C6: for every space, every dimension \<open>d\<close> of it and every worker count
  \<open>W \<ge> 1\<close>, the partition of the last worker \<open>W - 1\<close> keeps the upper bound
  \<open>limit[d]\<close> of the space. The same holds for \<open>end_i\<close> in the two-dimensional version.
\<close>

theorem partition_last_worker_limit:
  assumes "0 \<le>s d" "sint d < int (dim s)" "1 \<le>s W"
  shows "(\<exists>p. partition (W - 1) W d s = Inr p
            \<and> limit p ! nat (sint d) = limit s ! nat (sint d))
       \<and> (\<exists>q. static_partition_2d (W - 1) W s2 = Inr q \<and> end_i q = end_i s2)"
proof -
  from assms(1) have "\<not> d <s 0" by (simp add: word_sle_eq word_sless_alt)
  with assms(2) sle_one_nonzero [OF assms(3)] show ?thesis
    by (simp add: partition_def static_partition_2d_def Let_def)
qed

theorem partition_last_worker_limit_witness:
  "(\<exists>p. partition (3 - 1) 3 0 \<lparr>start = [1, 1], limit = [99, 99]\<rparr> = Inr p
        \<and> limit p ! nat (sint (0 :: c_int)) = limit \<lparr>start = [1, 1], limit = [99, 99]\<rparr> ! nat (sint (0 :: c_int)))
   \<and> (\<exists>q. static_partition_2d (3 - 1) 3
             \<lparr>start_i = 1, end_i = 99, start_j = 1, end_j = 99\<rparr> = Inr q
        \<and> end_i q = end_i \<lparr>start_i = 1, end_i = 99, start_j = 1, end_j = 99\<rparr>)"
proof -
  have "(0 :: c_int) \<le>s 0" "(1 :: c_int) \<le>s 3" by code_simp+
  then show ?thesis
    using partition_last_worker_limit [of 0 "\<lparr>start = [1, 1], limit = [99, 99]\<rparr>" 3
      "\<lparr>start_i = 1, end_i = 99, start_j = 1, end_j = 99\<rparr>"]
    by (simp add: dim_def)
qed



subsection \<open>Equality of cursors\<close>

text \<open>
  Claim C8: two cursors compare equal (\<open>operator!=\<close> is false) if and only if their
  index tuples are equal element by element and the start and limit tuples of their
  spaces are equal element by element; cursors on unequal spaces are never equal.
\<close>

theorem iteration_equal_iff:
  assumes "length (index a) = D" "length (index b) = D"
    "length (start (its_space a)) = D" "length (start (its_space b)) = D"
    "length (limit (its_space a)) = D" "length (limit (its_space b)) = D"
  shows "((\<not> iteration_ne a b) \<longleftrightarrow>
           (\<forall>d<D. index a ! d = index b ! d)
         \<and> (\<forall>d<D. start (its_space a) ! d = start (its_space b) ! d)
         \<and> (\<forall>d<D. limit (its_space a) ! d = limit (its_space b) ! d))
       \<and> (dense_space_ne (its_space a) (its_space b) \<longrightarrow> iteration_ne a b)"
  using assms
  by (auto simp add: iteration_ne_def dense_space_ne_def list_eq_iff_nth_eq)

theorem iteration_equal_iff_witness:
  "iteration_ne
     \<lparr>index = [1, 1], order = None, its_space = \<lparr>start = [1, 1], limit = [4, 4]\<rparr>\<rparr>
     \<lparr>index = [1, 1], order = None, its_space = \<lparr>start = [1, 1], limit = [4, 5]\<rparr>\<rparr>"
  using iteration_equal_iff [of
      "\<lparr>index = [1, 1], order = None, its_space = \<lparr>start = [1, 1], limit = [4, 4]\<rparr>\<rparr>" 2
      "\<lparr>index = [1, 1], order = None, its_space = \<lparr>start = [1, 1], limit = [4, 5]\<rparr>\<rparr>"]
  by (simp add: dense_space_ne_def)

subsection \<open>The example of three by three indices\<close>

text \<open>
  Claim C4 says that row-major order on the space with start \<open>[1,1]\<close> and limit \<open>[4,4]\<close>
  yields \<open>(1,1),(2,1),(3,1),(1,2),\<dots>\<close>. The row-major order of the generic version does
  not.
\<close>

theorem rm_iterate_3x3_not_first_fastest:
  "rm_iterate \<lparr>start = [1, 1], limit = [4, 4]\<rparr>
   \<noteq> Some (Inr [[1,1],[2,1],[3,1],[1,2],[2,2],[3,2],[1,3],[2,3],[3,3]])"
  by code_simp

text \<open>
  Claim C4 as amended: on that space row-major order, in which the last dimension
  varies fastest, yields \<open>(1,1),(1,2),(1,3),(2,1),(2,2),(2,3),(3,1),(3,2),(3,3)\<close>, nine
  elements in that order.
\<close>

theorem rm_iterate_3x3:
  "rm_iterate \<lparr>start = [1, 1], limit = [4, 4]\<rparr>
   = Some (Inr [[1,1],[1,2],[1,3],[2,1],[2,2],[2,3],[3,1],[3,2],[3,3]])"
  by code_simp

text \<open>
  The sequence of the claim is the one of column-major order, and of \<^verbatim>\<open>_rm_order\<close> in
  the two-dimensional version, whose \<^verbatim>\<open>next\<close> increments \<open>i\<close> first.
\<close>

lemma cm_iterate_3x3:
  "cm_iterate \<lparr>start = [1, 1], limit = [4, 4]\<rparr>
   = Some (Inr [[1,1],[2,1],[3,1],[1,2],[2,2],[3,2],[1,3],[2,3],[3,3]])"
  by code_simp

lemma rm_iterate_2d_3x3:
  "rm_iterate_2d \<lparr>start_i = 1, end_i = 4, start_j = 1, end_j = 4\<rparr>
   = Some [(1,1),(2,1),(3,1),(1,2),(2,2),(3,2),(1,3),(2,3),(3,3)]"
  by code_simp


end
